theory Spec2Isabelle
  imports Main "HOL-Library.Word"
begin

unbundle bit_operations_syntax

section \<open>Data and errors\<close>

text \<open>
  A Python \<open>str\<close> is a sequence of Unicode code points and a \<open>bytes\<close> object a
  sequence of integers 0..255. The screen text holds Cyrillic and box-drawing
  characters, so a character is a code point (a \<open>nat\<close>), not an 8-bit \<open>char\<close>.
\<close>

type_synonym ustr = "nat list"
type_synonym byte = "8 word"
type_synonym bytes = "byte list"

datatype error = UnicodeDecodeError | UnicodeEncodeError | ValueError | IndexError

text \<open>Sequencing of computations that may raise: the first exception wins.\<close>

definition rbind :: "error + 'a \<Rightarrow> ('a \<Rightarrow> error + 'b) \<Rightarrow> error + 'b" where
  "rbind m f = (case m of Inl e \<Rightarrow> Inl e | Inr x \<Rightarrow> f x)"

text \<open>A comprehension or generator whose body may raise, run from left to right.\<close>

fun rmap :: "('a \<Rightarrow> error + 'b) \<Rightarrow> 'a list \<Rightarrow> error + 'b list" where
  "rmap f [] = Inr []"
| "rmap f (x # xs) = rbind (f x) (\<lambda>y. rbind (rmap f xs) (\<lambda>ys. Inr (y # ys)))"

text \<open>\<open>seq[i]\<close> for a non-negative index.\<close>

definition py_index :: "'a list \<Rightarrow> nat \<Rightarrow> error + 'a" where
  "py_index xs i = (if i < length xs then Inr (xs ! i) else Inl IndexError)"

text \<open>\<open>bytes(ints)\<close>: every element must be in \<open>range(256)\<close>.\<close>

definition bytes_of_ints :: "int list \<Rightarrow> error + bytes" where
  "bytes_of_ints xs =
     rmap (\<lambda>i. if 0 \<le> i \<and> i < 256 then Inr (word_of_int i) else Inl ValueError) xs"

section \<open>The runtime's codecs\<close>

subsection \<open>UTF-8\<close>

text \<open>\<open>str.encode("utf-8")\<close>, strict: surrogates cannot be encoded.\<close>

definition utf8_encode_cp :: "nat \<Rightarrow> error + bytes" where
  "utf8_encode_cp c =
     (if c < 0x80 then Inr [of_nat c]
      else if c < 0x800 then Inr [of_nat (0xC0 + c div 64), of_nat (0x80 + c mod 64)]
      else if c < 0x10000 then
        (if 0xD800 \<le> c \<and> c \<le> 0xDFFF then Inl UnicodeEncodeError
         else Inr [of_nat (0xE0 + c div 4096), of_nat (0x80 + c div 64 mod 64),
                   of_nat (0x80 + c mod 64)])
      else if c < 0x110000 then
        Inr [of_nat (0xF0 + c div 262144), of_nat (0x80 + c div 4096 mod 64),
             of_nat (0x80 + c div 64 mod 64), of_nat (0x80 + c mod 64)]
      else Inl UnicodeEncodeError)"

definition str_encode_utf8 :: "ustr \<Rightarrow> error + bytes" where
  "str_encode_utf8 s = rbind (rmap utf8_encode_cp s) (\<lambda>parts. Inr (concat parts))"

text \<open>A continuation byte \<open>10xxxxxx\<close> whose value lies between \<open>lo\<close> and \<open>hi\<close>.\<close>

definition cont_in :: "nat \<Rightarrow> nat \<Rightarrow> byte \<Rightarrow> bool" where
  "cont_in lo hi b = (lo \<le> unat b \<and> unat b \<le> hi)"

text \<open>
  \<open>bytes.decode("utf-8")\<close>, strict: the well-formed byte sequences of the Unicode
  standard (no overlong forms, no surrogates, nothing above U+10FFFF); anything else
  raises.
\<close>

fun bytes_decode_utf8 :: "bytes \<Rightarrow> error + ustr" where
  "bytes_decode_utf8 [] = Inr []"
| "bytes_decode_utf8 (b0 # bs) =
     (if unat b0 < 0x80 then
        rbind (bytes_decode_utf8 bs) (\<lambda>cs. Inr (unat b0 # cs))
      else if 0xC2 \<le> unat b0 \<and> unat b0 \<le> 0xDF then
        (case bs of
           b1 # r \<Rightarrow>
             if cont_in 0x80 0xBF b1 then
               rbind (bytes_decode_utf8 r)
                 (\<lambda>cs. Inr (((unat b0 - 0xC0) * 64 + (unat b1 - 0x80)) # cs))
             else Inl UnicodeDecodeError
         | _ \<Rightarrow> Inl UnicodeDecodeError)
      else if 0xE0 \<le> unat b0 \<and> unat b0 \<le> 0xEF then
        (case bs of
           b1 # b2 # r \<Rightarrow>
             if cont_in (if unat b0 = 0xE0 then 0xA0 else 0x80)
                        (if unat b0 = 0xED then 0x9F else 0xBF) b1
                \<and> cont_in 0x80 0xBF b2 then
               rbind (bytes_decode_utf8 r)
                 (\<lambda>cs. Inr (((unat b0 - 0xE0) * 4096 + (unat b1 - 0x80) * 64
                               + (unat b2 - 0x80)) # cs))
             else Inl UnicodeDecodeError
         | _ \<Rightarrow> Inl UnicodeDecodeError)
      else if 0xF0 \<le> unat b0 \<and> unat b0 \<le> 0xF4 then
        (case bs of
           b1 # b2 # b3 # r \<Rightarrow>
             if cont_in (if unat b0 = 0xF0 then 0x90 else 0x80)
                        (if unat b0 = 0xF4 then 0x8F else 0xBF) b1
                \<and> cont_in 0x80 0xBF b2 \<and> cont_in 0x80 0xBF b3 then
               rbind (bytes_decode_utf8 r)
                 (\<lambda>cs. Inr (((unat b0 - 0xF0) * 262144 + (unat b1 - 0x80) * 4096
                               + (unat b2 - 0x80) * 64 + (unat b3 - 0x80)) # cs))
             else Inl UnicodeDecodeError
         | _ \<Rightarrow> Inl UnicodeDecodeError)
      else Inl UnicodeDecodeError)"

subsection \<open>Code page 866\<close>

text \<open>
  The decoding table of the runtime's \<open>cp866\<close> codec (\<open>encodings/cp866.py\<close>):
  entry \<open>i\<close> is the code point of byte \<open>i\<close>. The lower half is ASCII, the upper half
  Cyrillic letters, box-drawing characters and a few symbols.
\<close>

definition cp866_decoding_table :: "nat list" where
  "cp866_decoding_table =
  [0x0000, 0x0001, 0x0002, 0x0003, 0x0004, 0x0005, 0x0006, 0x0007, 0x0008, 0x0009, 0x000A, 0x000B, 0x000C, 0x000D, 0x000E, 0x000F,
   0x0010, 0x0011, 0x0012, 0x0013, 0x0014, 0x0015, 0x0016, 0x0017, 0x0018, 0x0019, 0x001A, 0x001B, 0x001C, 0x001D, 0x001E, 0x001F,
   0x0020, 0x0021, 0x0022, 0x0023, 0x0024, 0x0025, 0x0026, 0x0027, 0x0028, 0x0029, 0x002A, 0x002B, 0x002C, 0x002D, 0x002E, 0x002F,
   0x0030, 0x0031, 0x0032, 0x0033, 0x0034, 0x0035, 0x0036, 0x0037, 0x0038, 0x0039, 0x003A, 0x003B, 0x003C, 0x003D, 0x003E, 0x003F,
   0x0040, 0x0041, 0x0042, 0x0043, 0x0044, 0x0045, 0x0046, 0x0047, 0x0048, 0x0049, 0x004A, 0x004B, 0x004C, 0x004D, 0x004E, 0x004F,
   0x0050, 0x0051, 0x0052, 0x0053, 0x0054, 0x0055, 0x0056, 0x0057, 0x0058, 0x0059, 0x005A, 0x005B, 0x005C, 0x005D, 0x005E, 0x005F,
   0x0060, 0x0061, 0x0062, 0x0063, 0x0064, 0x0065, 0x0066, 0x0067, 0x0068, 0x0069, 0x006A, 0x006B, 0x006C, 0x006D, 0x006E, 0x006F,
   0x0070, 0x0071, 0x0072, 0x0073, 0x0074, 0x0075, 0x0076, 0x0077, 0x0078, 0x0079, 0x007A, 0x007B, 0x007C, 0x007D, 0x007E, 0x007F,
   0x0410, 0x0411, 0x0412, 0x0413, 0x0414, 0x0415, 0x0416, 0x0417, 0x0418, 0x0419, 0x041A, 0x041B, 0x041C, 0x041D, 0x041E, 0x041F,
   0x0420, 0x0421, 0x0422, 0x0423, 0x0424, 0x0425, 0x0426, 0x0427, 0x0428, 0x0429, 0x042A, 0x042B, 0x042C, 0x042D, 0x042E, 0x042F,
   0x0430, 0x0431, 0x0432, 0x0433, 0x0434, 0x0435, 0x0436, 0x0437, 0x0438, 0x0439, 0x043A, 0x043B, 0x043C, 0x043D, 0x043E, 0x043F,
   0x2591, 0x2592, 0x2593, 0x2502, 0x2524, 0x2561, 0x2562, 0x2556, 0x2555, 0x2563, 0x2551, 0x2557, 0x255D, 0x255C, 0x255B, 0x2510,
   0x2514, 0x2534, 0x252C, 0x251C, 0x2500, 0x253C, 0x255E, 0x255F, 0x255A, 0x2554, 0x2569, 0x2566, 0x2560, 0x2550, 0x256C, 0x2567,
   0x2568, 0x2564, 0x2565, 0x2559, 0x2558, 0x2552, 0x2553, 0x256B, 0x256A, 0x2518, 0x250C, 0x2588, 0x2584, 0x258C, 0x2590, 0x2580,
   0x0440, 0x0441, 0x0442, 0x0443, 0x0444, 0x0445, 0x0446, 0x0447, 0x0448, 0x0449, 0x044A, 0x044B, 0x044C, 0x044D, 0x044E, 0x044F,
   0x0401, 0x0451, 0x0404, 0x0454, 0x0407, 0x0457, 0x040E, 0x045E, 0x00B0, 0x2219, 0x00B7, 0x221A, 0x2116, 0x00A4, 0x25A0, 0x00A0]"

text \<open>
  A charmap decoder, strict: a byte beyond the table, or one the table maps to the
  "undefined" mark U+FFFE, raises.
\<close>

fun charmap_decode :: "nat list \<Rightarrow> bytes \<Rightarrow> error + ustr" where
  "charmap_decode tbl [] = Inr []"
| "charmap_decode tbl (b # bs) =
     (if unat b < length tbl \<and> tbl ! unat b \<noteq> 0xFFFE
      then rbind (charmap_decode tbl bs) (\<lambda>cs. Inr (tbl ! unat b # cs))
      else Inl UnicodeDecodeError)"

definition bytes_decode_cp866 :: "bytes \<Rightarrow> error + ustr" where
  "bytes_decode_cp866 data = charmap_decode cp866_decoding_table data"

section \<open>cp866.py\<close>

text \<open>
  The module-level table \<open>CP866\<close>: for each \<open>i\<close> in \<open>range(256)\<close> the UTF-8 bytes of
  \<open>bytes([i]).decode("cp866", errors="strict")\<close>. Building it can raise, and then the
  module does not load; the functions below carry that outcome.
\<close>

definition CP866 :: "error + bytes list" where
  "CP866 =
     rmap (\<lambda>i. rbind (bytes_of_ints [i])
                  (\<lambda>bs. rbind (bytes_decode_cp866 bs) str_encode_utf8))
          (map int [0..<256])"

definition cp866_to_utf8 :: "bytes \<Rightarrow> error + ustr" where
  "cp866_to_utf8 data =
     rbind CP866 (\<lambda>tbl.
       rbind (rmap (\<lambda>b. py_index tbl (unat b)) data)
         (\<lambda>parts. bytes_decode_utf8 (concat parts)))"

definition cp866_to_utf8_fast :: "bytes \<Rightarrow> error + ustr" where
  "cp866_to_utf8_fast data = bytes_decode_cp866 data"

section \<open>The runtime's string and pattern operations\<close>

text \<open>A string literal of ASCII characters, as code points.\<close>

definition ustr_of :: "string \<Rightarrow> ustr" where
  "ustr_of s = map of_char s"

text \<open>The character class \<open>[0-9A-Fa-f]\<close>.\<close>

definition is_hexdigit :: "nat \<Rightarrow> bool" where
  "is_hexdigit c =
     ((0x30 \<le> c \<and> c \<le> 0x39) \<or> (0x41 \<le> c \<and> c \<le> 0x46) \<or> (0x61 \<le> c \<and> c \<le> 0x66))"

text \<open>
  The class \<open>\w\<close> of a \<open>str\<close> pattern: the underscore and every character the Unicode
  database calls alphanumeric. On ASCII that is \<open>[0-9A-Za-z_]\<close>; beyond ASCII the
  runtime's database decides, and it is the parameter \<open>uw\<close> of everything below.
\<close>

definition is_word :: "(nat \<Rightarrow> bool) \<Rightarrow> nat \<Rightarrow> bool" where
  "is_word uw c =
     (if c < 0x80
      then (0x30 \<le> c \<and> c \<le> 0x39) \<or> (0x41 \<le> c \<and> c \<le> 0x5A) \<or> c = 0x5F
           \<or> (0x61 \<le> c \<and> c \<le> 0x7A)
      else uw c)"

text \<open>
  \<open>\b\<close> at position \<open>i\<close> of \<open>s\<close>: exactly one of the characters before and after
  the position is a word character (the ends of the string count as non-word).
\<close>

definition word_boundary :: "(nat \<Rightarrow> bool) \<Rightarrow> ustr \<Rightarrow> nat \<Rightarrow> bool" where
  "word_boundary uw s i =
     ((0 < i \<and> is_word uw (s ! (i - 1))) \<noteq> (i < length s \<and> is_word uw (s ! i)))"

text \<open>\<open>\b([0-9A-Fa-f]{n})\b\<close> matches at position \<open>i\<close> of \<open>s\<close>.\<close>

definition tok_at :: "(nat \<Rightarrow> bool) \<Rightarrow> nat \<Rightarrow> ustr \<Rightarrow> nat \<Rightarrow> bool" where
  "tok_at uw n s i =
     (i + n \<le> length s \<and> word_boundary uw s i
      \<and> list_all is_hexdigit (take n (drop i s)) \<and> word_boundary uw s (i + n))"

text \<open>
  \<open>finditer\<close> for that pattern, scanning from position \<open>i\<close>: the spans
  \<open>(start, end)\<close> of the matches, left to right and without overlap. After a match
  the scan goes on at its end, otherwise one character further. (The two patterns of
  the program have \<open>n = 2\<close> and \<open>n = 4\<close>.)
\<close>

function finditer_from :: "(nat \<Rightarrow> bool) \<Rightarrow> nat \<Rightarrow> ustr \<Rightarrow> nat \<Rightarrow> (nat \<times> nat) list" where
  "finditer_from uw n s i =
     (if n = 0 \<or> length s < i + n then []
      else if tok_at uw n s i then (i, i + n) # finditer_from uw n s (i + n)
      else finditer_from uw n s (Suc i))"
  by pat_completeness auto
termination
  by (relation "measure (\<lambda>(uw, n, s, i). length s - i)") auto

declare finditer_from.simps [simp del]

definition finditer :: "(nat \<Rightarrow> bool) \<Rightarrow> nat \<Rightarrow> ustr \<Rightarrow> (nat \<times> nat) list" where
  "finditer uw n s = finditer_from uw n s 0"

text \<open>\<open>tok.group(1)\<close>: the text of a span.\<close>

definition group1 :: "ustr \<Rightarrow> nat \<times> nat \<Rightarrow> ustr" where
  "group1 s tok = take (snd tok - fst tok) (drop (fst tok) s)"

text \<open>
  \<open>_ADDR_RE.match(line)\<close> for \<open>^([0-9A-Fa-f]{4}:[0-9A-Fa-f]{4})(.*)$\<close>: groups 1
  and 2, or \<open>None\<close>. \<open>.\<close> matches anything but a newline, and \<open>$\<close> matches at the
  end of the string or before a newline that ends it.
\<close>

definition ADDR_RE_match :: "ustr \<Rightarrow> (ustr \<times> ustr) option" where
  "ADDR_RE_match line =
     (if 9 \<le> length line \<and> list_all is_hexdigit (take 4 line) \<and> line ! 4 = 0x3A
         \<and> list_all is_hexdigit (take 4 (drop 5 line))
      then
        (let rest = drop 9 line; g2 = takeWhile (\<lambda>c. c \<noteq> 0x0A) rest
         in if rest = g2 \<or> rest = g2 @ [0x0A] then Some (take 9 line, g2) else None)
      else None)"

text \<open>
  \<open>int(text, 16)\<close> on a group of hexadecimal digits. Only such groups reach it; for
  any other text the model answers \<open>ValueError\<close>, which is coarser than the runtime
  (that also reads a sign, a prefix, underscores and surrounding blanks).
\<close>

definition hexval :: "nat \<Rightarrow> int" where
  "hexval c =
     (if c \<le> 0x39 then int c - 0x30
      else if c \<le> 0x46 then int c - 0x41 + 10
      else int c - 0x61 + 10)"

definition int_base16 :: "ustr \<Rightarrow> error + int" where
  "int_base16 s =
     (if s \<noteq> [] \<and> list_all is_hexdigit s
      then Inr (foldl (\<lambda>a c. 16 * a + hexval c) 0 s)
      else Inl ValueError)"

text \<open>\<open>s.lstrip(" ")\<close> and \<open>s.endswith(suffix)\<close>.\<close>

definition lstrip_sp :: "ustr \<Rightarrow> ustr" where
  "lstrip_sp s = dropWhile (\<lambda>c. c = 0x20) s"

definition endswith :: "ustr \<Rightarrow> ustr \<Rightarrow> bool" where
  "endswith s suffix =
     (length suffix \<le> length s \<and> drop (length s - length suffix) s = suffix)"

text \<open>
  \<open>s.splitlines(True)\<close>: the lines of \<open>s\<close>, each with its line boundary. A boundary
  is \<open>\r\n\<close> or one of the characters LF, VT, FF, CR, FS, GS, RS, NEL, LS, PS. The
  first argument is the line read so far.
\<close>

definition is_linebreak :: "nat \<Rightarrow> bool" where
  "is_linebreak c =
     (c = 0x0A \<or> c = 0x0B \<or> c = 0x0C \<or> c = 0x0D \<or> c = 0x1C \<or> c = 0x1D \<or> c = 0x1E
      \<or> c = 0x85 \<or> c = 0x2028 \<or> c = 0x2029)"

fun splitlines_from :: "ustr \<Rightarrow> ustr \<Rightarrow> ustr list" where
  "splitlines_from cur [] = (if cur = [] then [] else [cur])"
| "splitlines_from cur (c # cs) =
     (if c = 0x0D then
        (case cs of
           d # ds \<Rightarrow>
             if d = 0x0A then (cur @ [c, d]) # splitlines_from [] ds
             else (cur @ [c]) # splitlines_from [] cs
         | [] \<Rightarrow> (cur @ [c]) # splitlines_from [] cs)
      else if is_linebreak c then (cur @ [c]) # splitlines_from [] cs
      else splitlines_from (cur @ [c]) cs)"

definition splitlines_keepends :: "ustr \<Rightarrow> ustr list" where
  "splitlines_keepends s = splitlines_from [] s"

section \<open>__main__.py\<close>

text \<open>\<open>render_byte_cp866\<close>: control bytes are shown as a period.\<close>

definition render_byte_cp866 :: "int \<Rightarrow> error + ustr" where
  "render_byte_cp866 b =
     (if b < 0x20 \<or> b = 0x7F then Inr [0x2E]
      else rbind (bytes_of_ints [b]) cp866_to_utf8)"

text \<open>
  The two loops that collect \<open>bytes16\<close> from the first tokens: the byte view takes
  the value of each of the first 16 tokens, the word view splits each of the first 8
  into its low byte and then its high byte.
\<close>

definition byte_view_bytes16 :: "ustr \<Rightarrow> (nat \<times> nat) list \<Rightarrow> error + int list" where
  "byte_view_bytes16 rest it = rmap (\<lambda>tok. int_base16 (group1 rest tok)) (take 16 it)"

definition word_view_bytes16 :: "ustr \<Rightarrow> (nat \<times> nat) list \<Rightarrow> error + int list" where
  "word_view_bytes16 rest it =
     rbind (rmap (\<lambda>tok. rbind (int_base16 (group1 rest tok)) (\<lambda>w.
                     let lo = w AND 0xFF; hi = drop_bit 8 w AND 0xFF in Inr [lo, hi]))
                 (take 8 it))
       (\<lambda>pairs. Inr (concat pairs))"

text \<open>
  \<open>try_fix_byte_view_line\<close>: \<open>Inr None\<close> when the line is not a byte-view dump line,
  \<open>Inr (Some fixed)\<close> when it is, \<open>Inl\<close> when something raises.
\<close>

definition try_fix_byte_view_line :: "(nat \<Rightarrow> bool) \<Rightarrow> ustr \<Rightarrow> error + ustr option" where
  "try_fix_byte_view_line uw line =
     (case ADDR_RE_match line of
        None \<Rightarrow> Inr None
      | Some (addr, rest) \<Rightarrow>
          (let it = finditer uw 2 rest in
           if length it < 16 then Inr None
           else
             rbind (byte_view_bytes16 rest it) (\<lambda>bytes16.
               let end_in_rest = snd (it ! 15);
                   split_pos = length addr + end_in_rest;
                   tail = drop split_pos line;
                   pad = length tail - length (lstrip_sp tail);
                   pad = (if pad < 1 then 2 else pad)
               in rbind (rmap render_byte_cp866 bytes16) (\<lambda>parts.
                    Inr (Some (take split_pos line @ replicate pad 0x20 @ concat parts))))))"

text \<open>\<open>try_fix_word_view_line\<close>: the same for the word view.\<close>

definition try_fix_word_view_line :: "(nat \<Rightarrow> bool) \<Rightarrow> ustr \<Rightarrow> error + ustr option" where
  "try_fix_word_view_line uw line =
     (case ADDR_RE_match line of
        None \<Rightarrow> Inr None
      | Some (addr, rest) \<Rightarrow>
          (let it = finditer uw 4 rest in
           if length it < 8 then Inr None
           else
             rbind (word_view_bytes16 rest it) (\<lambda>bytes16.
               let end_in_rest = snd (it ! 7);
                   split_pos = length addr + end_in_rest;
                   tail = drop split_pos line;
                   pad = length tail - length (lstrip_sp tail);
                   pad = (if pad < 1 then 2 else pad)
               in rbind (rmap render_byte_cp866 bytes16) (\<lambda>parts.
                    Inr (Some (take split_pos line @ replicate pad 0x20 @ concat parts))))))"

text \<open>
  \<open>x or rest\<close> for \<open>x\<close> a string or \<open>None\<close>: \<open>None\<close> and the empty string are
  false.
\<close>

fun or_str :: "ustr option \<Rightarrow> error + ustr \<Rightarrow> error + ustr" where
  "or_str None k = k"
| "or_str (Some s) k = (if s = [] then k else Inr s)"

text \<open>
  The expression
  \<open>try_fix_byte_view_line(core) or try_fix_word_view_line(core) or core\<close>
  of \<open>fix_screen_text\<close>: the byte view is tried first.
\<close>

definition fix_line :: "(nat \<Rightarrow> bool) \<Rightarrow> ustr \<Rightarrow> error + ustr" where
  "fix_line uw core =
     rbind (try_fix_byte_view_line uw core) (\<lambda>a.
       or_str a (rbind (try_fix_word_view_line uw core) (\<lambda>b. or_str b (Inr core))))"

text \<open>The \<open>if\<close>/\<open>elif\<close> of \<open>fix_screen_text\<close> that takes the newline off a line.\<close>

definition split_nl :: "ustr \<Rightarrow> ustr \<times> ustr" where
  "split_nl line =
     (if endswith line [0x0D, 0x0A] then (take (length line - 2) line, [0x0D, 0x0A])
      else if endswith line [0x0A] then (take (length line - 1) line, [0x0A])
      else (line, []))"

definition fix_screen_text :: "(nat \<Rightarrow> bool) \<Rightarrow> ustr \<Rightarrow> error + ustr" where
  "fix_screen_text uw screen_text =
     rbind (rmap (\<lambda>line. case split_nl line of (core, nl) \<Rightarrow>
                    rbind (fix_line uw core) (\<lambda>fixed. Inr (fixed @ nl)))
                 (splitlines_keepends screen_text))
       (\<lambda>out_lines. Inr (concat out_lines))"

section \<open>Notions used in the statements\<close>

text \<open>A Unicode scalar value: a code point that is not a surrogate.\<close>

definition scalar_value :: "nat \<Rightarrow> bool" where
  "scalar_value c = (c < 0x110000 \<and> (c < 0xD800 \<or> 0xDFFF < c))"

text \<open>The UTF-8 bytes of a code point, where it has any.\<close>

definition utf8_bytes :: "nat \<Rightarrow> bytes" where
  "utf8_bytes c = (case utf8_encode_cp c of Inr bs \<Rightarrow> bs | Inl e \<Rightarrow> [])"

text \<open>The character that code page 866 gives to a byte.\<close>

definition cp866_char :: "byte \<Rightarrow> nat" where
  "cp866_char b = cp866_decoding_table ! unat b"

text \<open>The value of a group of hexadecimal digits.\<close>

definition hexnum :: "ustr \<Rightarrow> int" where
  "hexnum s = foldl (\<lambda>a c. 16 * a + hexval c) 0 s"

text \<open>
  The character shown for a byte value: a period for a control byte, the code page's
  character otherwise.
\<close>

definition render_char :: "int \<Rightarrow> nat" where
  "render_char b = (if b < 0x20 \<or> b = 0x7F then 0x2E else cp866_char (word_of_int b))"

text \<open>
  The padding before the character column: the length of the run of spaces that a
  tail starts with, or 2 when the tail does not start with a space.
\<close>

definition pad_width :: "ustr \<Rightarrow> nat" where
  "pad_width tail =
     (if takeWhile (\<lambda>c. c = 0x20) tail = [] then 2
      else length (takeWhile (\<lambda>c. c = 0x20) tail))"

text \<open>A string without any line boundary character.\<close>

definition break_free :: "ustr \<Rightarrow> bool" where
  "break_free s = list_all (\<lambda>c. \<not> is_linebreak c) s"

section \<open>Sequencing\<close>

lemma rbind_Inr [simp]: "rbind (Inr x) f = f x" by (simp add: rbind_def)
lemma rbind_Inl [simp]: "rbind (Inl e) f = Inl e" by (simp add: rbind_def)

lemma rmap_Inr: "(\<And>x. x \<in> set xs \<Longrightarrow> f x = Inr (g x)) \<Longrightarrow> rmap f xs = Inr (map g xs)"
  by (induction xs) auto

section \<open>UTF-8 round trip\<close>

lemma u8: "n < 256 \<Longrightarrow> unat (of_nat n :: 8 word) = n"
  by (simp add: unat_of_nat)

lemma mod64_le: "(x::nat) mod 64 \<le> 63"
proof -
  have "x mod 64 < 64" by simp
  then show ?thesis by linarith
qed

lemma split64: "(c::nat) = c div 64 * 64 + c mod 64"
  by simp

lemma split4096: "(c::nat) div 64 = c div 4096 * 64 + c div 64 mod 64"
proof -
  have "c div 64 div 64 = c div 4096" by (simp add: div_mult2_eq)
  then show ?thesis using split64 [of "c div 64"] by simp
qed

lemma split262144: "(c::nat) div 4096 = c div 262144 * 64 + c div 4096 mod 64"
proof -
  have "c div 4096 div 64 = c div 262144" by (simp add: div_mult2_eq)
  then show ?thesis using split64 [of "c div 4096"] by simp
qed

lemma utf8_roundtrip1:
  assumes "c < 0x80"
  shows "utf8_encode_cp c = Inr [of_nat c]"
    and "bytes_decode_utf8 (of_nat c # rest) = rbind (bytes_decode_utf8 rest) (\<lambda>cs. Inr (c # cs))"
  using assms by (simp_all add: utf8_encode_cp_def u8)

lemma utf8_roundtrip2:
  assumes "0x80 \<le> c" "c < 0x800"
  shows "utf8_encode_cp c = Inr [of_nat (0xC0 + c div 64), of_nat (0x80 + c mod 64)]"
    and "bytes_decode_utf8 (of_nat (0xC0 + c div 64) # of_nat (0x80 + c mod 64) # rest)
           = rbind (bytes_decode_utf8 rest) (\<lambda>cs. Inr (c # cs))"
proof -
  show "utf8_encode_cp c = Inr [of_nat (0xC0 + c div 64), of_nat (0x80 + c mod 64)]"
    using assms by (simp add: utf8_encode_cp_def del: of_nat_add of_nat_numeral)
  have a: "c div 64 < 32" "2 \<le> c div 64" using assms by auto
  have u: "unat (of_nat (0xC0 + c div 64) :: 8 word) = 0xC0 + c div 64"
      "unat (of_nat (0x80 + c mod 64) :: 8 word) = 0x80 + c mod 64"
    using a mod64_le [of c] by - (rule u8, simp)+
  show "bytes_decode_utf8 (of_nat (0xC0 + c div 64) # of_nat (0x80 + c mod 64) # rest)
           = rbind (bytes_decode_utf8 rest) (\<lambda>cs. Inr (c # cs))"
    using a u by (simp add: cont_in_def mod64_le del: of_nat_add of_nat_numeral)
qed

lemma utf8_roundtrip3:
  assumes "0x800 \<le> c" "c < 0x10000" "c < 0xD800 \<or> 0xDFFF < c"
  shows "utf8_encode_cp c = Inr [of_nat (0xE0 + c div 4096), of_nat (0x80 + c div 64 mod 64),
                   of_nat (0x80 + c mod 64)]"
    and "bytes_decode_utf8 (of_nat (0xE0 + c div 4096) # of_nat (0x80 + c div 64 mod 64) #
                   of_nat (0x80 + c mod 64) # rest)
           = rbind (bytes_decode_utf8 rest) (\<lambda>cs. Inr (c # cs))"
proof -
  show "utf8_encode_cp c = Inr [of_nat (0xE0 + c div 4096), of_nat (0x80 + c div 64 mod 64),
                   of_nat (0x80 + c mod 64)]"
    using assms by (auto simp add: utf8_encode_cp_def simp del: of_nat_add of_nat_numeral)
  have a: "c div 4096 < 16" using assms by simp
  have d: "c div 4096 * 4096 + c div 64 mod 64 * 64 + c mod 64 = c"
    using split64 [of c] split4096 [of c] by linarith
  have e0: "c div 4096 = 0 \<Longrightarrow> 32 \<le> c div 64 mod 64"
    using assms split64 [of c] split4096 [of c] mod64_le [of c] by linarith
  have ed: "c div 4096 = 13 \<Longrightarrow> c div 64 mod 64 \<le> 31"
    using assms split64 [of c] split4096 [of c] mod64_le [of c] by linarith
  have u: "unat (of_nat (0xE0 + c div 4096) :: 8 word) = 0xE0 + c div 4096"
      "unat (of_nat (0x80 + c div 64 mod 64) :: 8 word) = 0x80 + c div 64 mod 64"
      "unat (of_nat (0x80 + c mod 64) :: 8 word) = 0x80 + c mod 64"
    using a mod64_le [of c] mod64_le [of "c div 64"] by - (rule u8, simp)+
  show "bytes_decode_utf8 (of_nat (0xE0 + c div 4096) # of_nat (0x80 + c div 64 mod 64) #
                   of_nat (0x80 + c mod 64) # rest)
           = rbind (bytes_decode_utf8 rest) (\<lambda>cs. Inr (c # cs))"
    using a u d e0 ed by (simp add: cont_in_def mod64_le del: of_nat_add of_nat_numeral)
qed

lemma utf8_roundtrip4:
  assumes "0x10000 \<le> c" "c < 0x110000"
  shows "utf8_encode_cp c = Inr [of_nat (0xF0 + c div 262144), of_nat (0x80 + c div 4096 mod 64),
             of_nat (0x80 + c div 64 mod 64), of_nat (0x80 + c mod 64)]"
    and "bytes_decode_utf8 (of_nat (0xF0 + c div 262144) # of_nat (0x80 + c div 4096 mod 64) #
             of_nat (0x80 + c div 64 mod 64) # of_nat (0x80 + c mod 64) # rest)
           = rbind (bytes_decode_utf8 rest) (\<lambda>cs. Inr (c # cs))"
proof -
  show "utf8_encode_cp c = Inr [of_nat (0xF0 + c div 262144), of_nat (0x80 + c div 4096 mod 64),
             of_nat (0x80 + c div 64 mod 64), of_nat (0x80 + c mod 64)]"
    using assms by (simp add: utf8_encode_cp_def del: of_nat_add of_nat_numeral)
  have a: "c div 262144 < 5" using assms by simp
  have d: "c div 262144 * 262144 + c div 4096 mod 64 * 4096 + c div 64 mod 64 * 64 + c mod 64 = c"
    using split64 [of c] split4096 [of c] split262144 [of c] by linarith
  have f0: "c div 262144 = 0 \<Longrightarrow> 16 \<le> c div 4096 mod 64"
    using assms split64 [of c] split4096 [of c] split262144 [of c] mod64_le [of c]
      mod64_le [of "c div 64"] by linarith
  have f4: "c div 262144 = 4 \<Longrightarrow> c div 4096 mod 64 \<le> 15"
    using assms split64 [of c] split4096 [of c] split262144 [of c] by linarith
  have u: "unat (of_nat (0xF0 + c div 262144) :: 8 word) = 0xF0 + c div 262144"
      "unat (of_nat (0x80 + c div 4096 mod 64) :: 8 word) = 0x80 + c div 4096 mod 64"
      "unat (of_nat (0x80 + c div 64 mod 64) :: 8 word) = 0x80 + c div 64 mod 64"
      "unat (of_nat (0x80 + c mod 64) :: 8 word) = 0x80 + c mod 64"
    using a mod64_le [of c] mod64_le [of "c div 64"] mod64_le [of "c div 4096"]
    by - (rule u8, simp)+
  show "bytes_decode_utf8 (of_nat (0xF0 + c div 262144) # of_nat (0x80 + c div 4096 mod 64) #
             of_nat (0x80 + c div 64 mod 64) # of_nat (0x80 + c mod 64) # rest)
           = rbind (bytes_decode_utf8 rest) (\<lambda>cs. Inr (c # cs))"
    using a u d f0 f4 by (simp add: cont_in_def mod64_le del: of_nat_add of_nat_numeral)
qed

lemma utf8_roundtrip:
  assumes "scalar_value c"
  shows "\<exists>bs. utf8_encode_cp c = Inr bs \<and> bs \<noteq> [] \<and>
           (\<forall>rest. bytes_decode_utf8 (bs @ rest) = rbind (bytes_decode_utf8 rest) (\<lambda>cs. Inr (c # cs)))"
proof -
  have sv: "c < 0x110000" "c < 0xD800 \<or> 0xDFFF < c"
    using assms by (simp_all add: scalar_value_def)
  consider "c < 0x80" | "0x80 \<le> c" "c < 0x800" | "0x800 \<le> c" "c < 0x10000" | "0x10000 \<le> c" "c < 0x110000"
    using sv by linarith
  then show ?thesis
  proof cases
    case 1
    then show ?thesis using utf8_roundtrip1 [of c] by simp
  next
    case 2
    then show ?thesis using utf8_roundtrip2 [of c] by simp
  next
    case 3
    then show ?thesis using utf8_roundtrip3 [of c] sv by simp
  next
    case 4
    then show ?thesis using utf8_roundtrip4 [of c] by simp
  qed
qed


lemma utf8_bytes_roundtrip:
  assumes "scalar_value c"
  shows "utf8_encode_cp c = Inr (utf8_bytes c)" and "utf8_bytes c \<noteq> []"
    and "bytes_decode_utf8 (utf8_bytes c @ rest) = rbind (bytes_decode_utf8 rest) (\<lambda>cs. Inr (c # cs))"
  using utf8_roundtrip [OF assms] by (auto simp: utf8_bytes_def)

section \<open>The code page decoder\<close>

lemma table_length: "length cp866_decoding_table = 256"
  by (simp add: cp866_decoding_table_def)

lemma table_all: "list_all (\<lambda>c. scalar_value c \<and> c \<noteq> 0xFFFE) cp866_decoding_table"
  by (simp add: cp866_decoding_table_def scalar_value_def)

lemma table_nth:
  assumes "i < 256"
  shows "scalar_value (cp866_decoding_table ! i)" and "cp866_decoding_table ! i \<noteq> 0xFFFE"
  using assms table_all table_length by (simp_all add: list_all_length)

lemma unat_byte_less: "unat (b :: byte) < 256"
  using unsigned_less [of b, where ?'a = nat] by simp

lemma cp866_char_ok: "scalar_value (cp866_char b)" "cp866_char b \<noteq> 0xFFFE"
  using table_nth [OF unat_byte_less [of b]] by (simp_all add: cp866_char_def)

lemma bytes_decode_cp866_eq: "bytes_decode_cp866 data = Inr (map cp866_char data)"
proof -
  have "charmap_decode cp866_decoding_table data = Inr (map cp866_char data)"
  proof (induction data)
    case Nil
    show ?case by simp
  next
    case (Cons b bs)
    have "unat b < length cp866_decoding_table" by (simp add: table_length unat_byte_less)
    moreover have "cp866_decoding_table ! unat b \<noteq> 0xFFFE"
      using cp866_char_ok(2) [of b] by (simp add: cp866_char_def)
    ultimately show ?case using Cons by (simp add: cp866_char_def)
  qed
  then show ?thesis by (simp add: bytes_decode_cp866_def)
qed

lemma CP866_entry:
  assumes "i < 256"
  shows "rbind (bytes_of_ints [int i]) (\<lambda>bs. rbind (bytes_decode_cp866 bs) str_encode_utf8)
           = Inr (utf8_bytes (cp866_decoding_table ! i))"
proof -
  have b: "bytes_of_ints [int i] = Inr [of_nat i]"
    using assms by (simp add: bytes_of_ints_def)
  have u: "unat (of_nat i :: byte) = i" using assms by (rule u8)
  have e: "str_encode_utf8 [cp866_decoding_table ! i] = Inr (utf8_bytes (cp866_decoding_table ! i))"
    using utf8_bytes_roundtrip(1) [OF table_nth(1) [OF assms]]
    by (simp add: str_encode_utf8_def)
  show ?thesis by (simp add: b bytes_decode_cp866_eq cp866_char_def u e)
qed

lemma CP866_eq: "CP866 = Inr (map (\<lambda>i. utf8_bytes (cp866_decoding_table ! i)) [0..<256])"
proof -
  have "CP866 = Inr (map (\<lambda>x. utf8_bytes (cp866_decoding_table ! nat x)) (map int [0..<256]))"
    unfolding CP866_def
  proof (rule rmap_Inr)
    fix x assume "x \<in> set (map int [0..<256])"
    then obtain i where i: "x = int i" "i < 256" by auto
    show "rbind (bytes_of_ints [x]) (\<lambda>bs. rbind (bytes_decode_cp866 bs) str_encode_utf8)
            = Inr (utf8_bytes (cp866_decoding_table ! nat x))"
      using CP866_entry [OF i(2)] i(1) by simp
  qed
  then show ?thesis by (simp add: comp_def)
qed

lemma CP866_index:
  "py_index (map (\<lambda>i. utf8_bytes (cp866_decoding_table ! i)) [0..<256]) (unat (b :: byte))
     = Inr (utf8_bytes (cp866_char b))"
  using unat_byte_less [of b] by (simp add: py_index_def cp866_char_def del: upt_rec_numeral)

lemma decode_concat_utf8_bytes:
  "bytes_decode_utf8 (concat (map (\<lambda>b. utf8_bytes (cp866_char b)) data)) = Inr (map cp866_char data)"
  by (induction data) (simp_all add: utf8_bytes_roundtrip(3) [OF cp866_char_ok(1)])

lemma cp866_to_utf8_eq: "cp866_to_utf8 data = Inr (map cp866_char data)"
proof -
  have "rmap (\<lambda>b. py_index (map (\<lambda>i. utf8_bytes (cp866_decoding_table ! i)) [0..<256]) (unat b)) data
          = Inr (map (\<lambda>b. utf8_bytes (cp866_char b)) data)"
    by (rule rmap_Inr) (rule CP866_index)
  then show ?thesis
    by (simp add: cp866_to_utf8_def CP866_eq decode_concat_utf8_bytes del: upt_rec_numeral)
qed

text \<open>
  C8. For every byte value \<open>b\<close> the table \<open>CP866\<close> is built without an exception,
  has 256 entries, its entry for \<open>b\<close> is not empty, and decoding the single byte \<open>b\<close>
  returns one character.
\<close>

theorem CP866_total:
  "\<exists>tbl c. CP866 = Inr tbl \<and> length tbl = 256 \<and> tbl ! unat (b :: byte) \<noteq> []
     \<and> cp866_to_utf8 [b] = Inr [c]"
proof -
  have "map (\<lambda>i. utf8_bytes (cp866_decoding_table ! i)) [0..<256] ! unat b = utf8_bytes (cp866_char b)"
    using unat_byte_less [of b] by (simp add: cp866_char_def del: upt_rec_numeral)
  then show ?thesis
    using utf8_bytes_roundtrip(2) [OF cp866_char_ok(1) [of b]]
    by (simp add: CP866_eq cp866_to_utf8_eq del: upt_rec_numeral)
qed

text \<open>
  C9. On every byte sequence \<open>cp866_to_utf8\<close> (byte by byte through the table) and
  \<open>cp866_to_utf8_fast\<close> (the whole buffer at once) return the same result.
\<close>

theorem cp866_to_utf8_fast_agrees: "cp866_to_utf8 data = cp866_to_utf8_fast data"
  by (simp add: cp866_to_utf8_eq cp866_to_utf8_fast_def bytes_decode_cp866_eq)

text \<open>
  C10. On every byte sequence \<open>cp866_to_utf8\<close> returns a string, one character for
  each byte: no exception is raised.
\<close>

theorem cp866_to_utf8_never_raises:
  "\<exists>s. cp866_to_utf8 data = Inr s \<and> length s = length data"
  by (simp add: cp866_to_utf8_eq)

subsection \<open>Tokens, values and rendering\<close>

lemma render_byte_cp866_eq:
  assumes "0 \<le> b" "b < 256"
  shows "render_byte_cp866 b = Inr [render_char b]"
  using assms
  by (simp add: render_byte_cp866_def render_char_def bytes_of_ints_def cp866_to_utf8_eq)

lemma rmap_render:
  assumes "\<And>b. b \<in> set bs \<Longrightarrow> 0 \<le> b \<and> b < 256"
  shows "rmap render_byte_cp866 bs = Inr (map (\<lambda>b. [render_char b]) bs)"
  by (rule rmap_Inr) (simp add: render_byte_cp866_eq assms)

lemma concat_singletons: "concat (map (\<lambda>b. [f b]) bs) = map f bs"
  by (induction bs) simp_all

lemma hexval_range: "is_hexdigit c \<Longrightarrow> 0 \<le> hexval c \<and> hexval c < 16"
  by (auto simp: is_hexdigit_def hexval_def)

lemma hexnum_snoc: "hexnum (s @ [c]) = 16 * hexnum s + hexval c"
  by (simp add: hexnum_def)

lemma hexnum_range: "list_all is_hexdigit s \<Longrightarrow> 0 \<le> hexnum s \<and> hexnum s < 16 ^ length s"
proof (induction s rule: rev_induct)
  case Nil
  show ?case by (simp add: hexnum_def)
next
  case (snoc c s)
  then have "0 \<le> hexnum s" "hexnum s < 16 ^ length s" "0 \<le> hexval c" "hexval c < 16"
    using hexval_range [of c] by simp_all
  then have "16 * hexnum s + hexval c < 16 * 16 ^ length s"
    by linarith
  with \<open>0 \<le> hexnum s\<close> \<open>0 \<le> hexval c\<close> show ?case by (simp add: hexnum_snoc)
qed

lemma int_base16_eq:
  "list_all is_hexdigit s \<Longrightarrow> s \<noteq> [] \<Longrightarrow> int_base16 s = Inr (hexnum s)"
  by (simp add: int_base16_def hexnum_def)

lemma finditer_from_spans:
  "(a, b) \<in> set (finditer_from uw n s i) \<Longrightarrow> i \<le> a \<and> b = a + n \<and> 0 < n \<and> tok_at uw n s a"
proof (induction uw n s i rule: finditer_from.induct)
  case (1 uw n s i)
  show ?case
  proof (cases "n = 0 \<or> length s < i + n")
    case True
    with "1.prems" show ?thesis by (simp add: finditer_from.simps [of uw n s i])
  next
    case False
    show ?thesis
    proof (cases "tok_at uw n s i")
      case True
      with False "1.prems" "1.IH"(1) show ?thesis
        by (auto simp: finditer_from.simps [of uw n s i])
    next
      case nt: False
      with False "1.prems" "1.IH"(2) show ?thesis
        by (auto simp: finditer_from.simps [of uw n s i])
    qed
  qed
qed

lemma finditer_spans:
  assumes "tok \<in> set (finditer uw n s)"
  shows "snd tok = fst tok + n" "0 < n" "tok_at uw n s (fst tok)"
  using finditer_from_spans [of "fst tok" "snd tok" uw n s 0] assms
  by (simp_all add: finditer_def)

lemma group1_tok:
  assumes "tok \<in> set (finditer uw n s)"
  shows "group1 s tok = take n (drop (fst tok) s)" "list_all is_hexdigit (group1 s tok)"
    "length (group1 s tok) = n" "group1 s tok \<noteq> []"
proof -
  note sp = finditer_spans [OF assms]
  show g: "group1 s tok = take n (drop (fst tok) s)" using sp by (simp add: group1_def)
  show "list_all is_hexdigit (group1 s tok)" using sp(3) g by (simp add: tok_at_def)
  show l: "length (group1 s tok) = n" using sp(3) g by (auto simp: tok_at_def)
  show "group1 s tok \<noteq> []" using l sp(2) by auto
qed

lemma tok_value:
  assumes "tok \<in> set (finditer uw n s)"
  shows "int_base16 (group1 s tok) = Inr (hexnum (group1 s tok))"
    "0 \<le> hexnum (group1 s tok)" "hexnum (group1 s tok) < 16 ^ n"
  using group1_tok [OF assms] int_base16_eq [of "group1 s tok"] hexnum_range [of "group1 s tok"]
  by simp_all

lemma byte_view_bytes16_eq:
  "byte_view_bytes16 rest (finditer uw 2 rest)
     = Inr (map (\<lambda>tok. hexnum (group1 rest tok)) (take 16 (finditer uw 2 rest)))"
  unfolding byte_view_bytes16_def
proof (rule rmap_Inr)
  fix tok assume "tok \<in> set (take 16 (finditer uw 2 rest))"
  then have "tok \<in> set (finditer uw 2 rest)" by (rule in_set_takeD)
  then show "int_base16 (group1 rest tok) = Inr (hexnum (group1 rest tok))"
    by (rule tok_value(1))
qed

lemma low_byte: "(w::int) AND 0xFF = w mod 256"
proof -
  have "w AND mask 8 = w mod 2 ^ 8"
    by (simp add: take_bit_eq_mod flip: take_bit_eq_mask)
  moreover have "(mask 8 :: int) = 0xFF" by (simp add: mask_eq_exp_minus_1)
  ultimately show ?thesis by simp
qed

lemma high_byte:
  assumes "0 \<le> w" "w < 65536"
  shows "drop_bit 8 (w::int) AND 0xFF = w div 256"
proof -
  have "drop_bit 8 w = w div 256" by (simp add: drop_bit_eq_div)
  moreover have "w div 256 mod 256 = w div 256" using assms by simp
  ultimately show ?thesis using low_byte [of "w div 256"] by simp
qed

lemma lo_hi:
  assumes "0 \<le> w" "w < 65536"
  shows "(let lo = w AND 0xFF; hi = drop_bit 8 w AND 0xFF in Inr [lo, hi] :: error + int list)
           = Inr [w mod 256, w div 256]"
  unfolding Let_def low_byte [of w] high_byte [OF assms] ..

lemma word_view_bytes16_eq:
  "word_view_bytes16 rest (finditer uw 4 rest)
     = Inr (concat (map (\<lambda>tok. [hexnum (group1 rest tok) mod 256, hexnum (group1 rest tok) div 256])
                        (take 8 (finditer uw 4 rest))))"
proof -
  have "rmap (\<lambda>tok. rbind (int_base16 (group1 rest tok)) (\<lambda>w.
                     let lo = w AND 0xFF; hi = drop_bit 8 w AND 0xFF in Inr [lo, hi]))
                 (take 8 (finditer uw 4 rest))
        = Inr (map (\<lambda>tok. [hexnum (group1 rest tok) mod 256, hexnum (group1 rest tok) div 256])
                        (take 8 (finditer uw 4 rest)))"
  proof (rule rmap_Inr)
    fix tok assume "tok \<in> set (take 8 (finditer uw 4 rest))"
    then have t: "tok \<in> set (finditer uw 4 rest)" by (rule in_set_takeD)
    have v: "int_base16 (group1 rest tok) = Inr (hexnum (group1 rest tok))"
      "0 \<le> hexnum (group1 rest tok)" "hexnum (group1 rest tok) < 65536"
      using tok_value [OF t] by simp_all
    show "rbind (int_base16 (group1 rest tok)) (\<lambda>w.
                     let lo = w AND 0xFF; hi = drop_bit 8 w AND 0xFF in Inr [lo, hi])
          = Inr [hexnum (group1 rest tok) mod 256, hexnum (group1 rest tok) div 256]"
      unfolding v(1) rbind_Inr by (rule lo_hi [OF v(2,3)])
  qed
  then show ?thesis by (simp add: word_view_bytes16_def)
qed

lemma length_lstrip:
  "length tail - length (lstrip_sp tail) = length (takeWhile (\<lambda>c. c = 0x20) tail)"
proof -
  have "length (takeWhile (\<lambda>c. c = 0x20) tail) + length (dropWhile (\<lambda>c. c = 0x20) tail)
          = length tail"
    unfolding length_append [symmetric] takeWhile_dropWhile_id ..
  then show ?thesis unfolding lstrip_sp_def by linarith
qed

lemma pad_eq:
  "(let pad = length tail - length (lstrip_sp tail) in if pad < 1 then 2 else pad) = pad_width tail"
  unfolding length_lstrip Let_def pad_width_def by simp

subsection \<open>The two line fixers in closed form\<close>

lemma ADDR_RE_match_SomeD:
  assumes "ADDR_RE_match line = Some (addr, rest)"
  shows "addr = take 9 line" "length addr = 9" "9 \<le> length line"
    "rest = takeWhile (\<lambda>c. c \<noteq> 0x0A) (drop 9 line)"
    "drop 9 line = rest \<or> drop 9 line = rest @ [0x0A]"
  using assms by (auto simp: ADDR_RE_match_def Let_def split: if_splits)

lemma byte_values:
  assumes "b \<in> set (map (\<lambda>tok. hexnum (group1 rest tok)) (take 16 (finditer uw 2 rest)))"
  shows "0 \<le> b \<and> b < 256"
proof -
  from assms obtain tok where t: "tok \<in> set (take 16 (finditer uw 2 rest))"
    and b: "b = hexnum (group1 rest tok)" by auto
  from t have "tok \<in> set (finditer uw 2 rest)" by (rule in_set_takeD)
  from tok_value(2,3) [OF this] b show ?thesis by simp
qed

lemma word_values:
  assumes "b \<in> set (concat (map (\<lambda>tok. [hexnum (group1 rest tok) mod 256, hexnum (group1 rest tok) div 256])
                        (take 8 (finditer uw 4 rest))))"
  shows "0 \<le> b \<and> b < 256"
proof -
  from assms obtain tok where t: "tok \<in> set (take 8 (finditer uw 4 rest))"
    and b: "b = hexnum (group1 rest tok) mod 256 \<or> b = hexnum (group1 rest tok) div 256" by auto
  from t have "tok \<in> set (finditer uw 4 rest)" by (rule in_set_takeD)
  from tok_value(2,3) [OF this] have "0 \<le> hexnum (group1 rest tok)" "hexnum (group1 rest tok) < 65536"
    by simp_all
  with b show ?thesis by auto
qed

lemma pad_if:
  "(if length tail - length (lstrip_sp tail) < 1 then 2
    else length tail - length (lstrip_sp tail)) = pad_width tail"
  using pad_eq [of tail] unfolding Let_def .

lemma rebuild:
  assumes "\<And>b. b \<in> set bs \<Longrightarrow> 0 \<le> b \<and> b < 256"
  shows "rbind (rmap render_byte_cp866 bs) (\<lambda>parts. Inr (Some (pre @ pad @ concat parts)))
         = Inr (Some (pre @ pad @ map render_char bs))"
proof -
  have "rmap render_byte_cp866 bs = Inr (map (\<lambda>b. [render_char b]) bs)"
    by (rule rmap_render) (rule assms)
  then show ?thesis by (simp add: concat_singletons)
qed

lemma try_fix_byte_view_line_eq:
  "try_fix_byte_view_line uw line =
     (case ADDR_RE_match line of
        None \<Rightarrow> Inr None
      | Some (addr, rest) \<Rightarrow>
          if length (finditer uw 2 rest) < 16 then Inr None
          else Inr (Some (take (9 + snd (finditer uw 2 rest ! 15)) line
                 @ replicate (pad_width (drop (9 + snd (finditer uw 2 rest ! 15)) line)) 0x20
                 @ map render_char (map (\<lambda>tok. hexnum (group1 rest tok))
                                        (take 16 (finditer uw 2 rest))))))"
proof (cases "ADDR_RE_match line")
  case None
  then show ?thesis by (simp add: try_fix_byte_view_line_def)
next
  case (Some p)
  obtain addr rest where p: "p = (addr, rest)" by (cases p)
  have l: "length addr = 9" using ADDR_RE_match_SomeD(2) Some p by simp
  show ?thesis
    unfolding try_fix_byte_view_line_def Some p option.case prod.case Let_def
      byte_view_bytes16_eq rbind_Inr pad_if l
    by (simp only: rebuild [OF byte_values])
qed

lemma try_fix_word_view_line_eq:
  "try_fix_word_view_line uw line =
     (case ADDR_RE_match line of
        None \<Rightarrow> Inr None
      | Some (addr, rest) \<Rightarrow>
          if length (finditer uw 4 rest) < 8 then Inr None
          else Inr (Some (take (9 + snd (finditer uw 4 rest ! 7)) line
                 @ replicate (pad_width (drop (9 + snd (finditer uw 4 rest ! 7)) line)) 0x20
                 @ map render_char
                     (concat (map (\<lambda>tok. [hexnum (group1 rest tok) mod 256,
                                           hexnum (group1 rest tok) div 256])
                                  (take 8 (finditer uw 4 rest)))))))"
proof (cases "ADDR_RE_match line")
  case None
  then show ?thesis by (simp add: try_fix_word_view_line_def)
next
  case (Some p)
  obtain addr rest where p: "p = (addr, rest)" by (cases p)
  have l: "length addr = 9" using ADDR_RE_match_SomeD(2) Some p by simp
  show ?thesis
    unfolding try_fix_word_view_line_def Some p option.case prod.case Let_def
      word_view_bytes16_eq rbind_Inr pad_if l
    by (simp only: rebuild [OF word_values])
qed

subsection \<open>Line repair\<close>

lemma or_str_Some: "s \<noteq> [] \<Longrightarrow> or_str (Some s) k = Inr s"
  by simp

lemma fix_line_eq:
  "fix_line uw core =
     (case ADDR_RE_match core of
        None \<Rightarrow> Inr core
      | Some (addr, rest) \<Rightarrow>
          if 16 \<le> length (finditer uw 2 rest) then
            Inr (take (9 + snd (finditer uw 2 rest ! 15)) core
                 @ replicate (pad_width (drop (9 + snd (finditer uw 2 rest ! 15)) core)) 0x20
                 @ map render_char (map (\<lambda>tok. hexnum (group1 rest tok))
                                        (take 16 (finditer uw 2 rest))))
          else if 8 \<le> length (finditer uw 4 rest) then
            Inr (take (9 + snd (finditer uw 4 rest ! 7)) core
                 @ replicate (pad_width (drop (9 + snd (finditer uw 4 rest ! 7)) core)) 0x20
                 @ map render_char
                     (concat (map (\<lambda>tok. [hexnum (group1 rest tok) mod 256,
                                           hexnum (group1 rest tok) div 256])
                                  (take 8 (finditer uw 4 rest)))))
          else Inr core)"
proof (cases "ADDR_RE_match core")
  case None
  then show ?thesis
    by (simp add: fix_line_def try_fix_byte_view_line_eq try_fix_word_view_line_eq)
next
  case (Some p)
  obtain addr rest where p: "p = (addr, rest)" by (cases p)
  note m = Some [unfolded p]
  show ?thesis
  proof (cases "16 \<le> length (finditer uw 2 rest)")
    case True
    then have "take 16 (finditer uw 2 rest) \<noteq> []" by auto
    then show ?thesis
      using True
      by (simp add: fix_line_def try_fix_byte_view_line_eq m or_str_Some del: or_str.simps(2))
  next
    case nb: False
    show ?thesis
    proof (cases "8 \<le> length (finditer uw 4 rest)")
      case True
      then obtain t ts where "take 8 (finditer uw 4 rest) = t # ts"
        by (cases "take 8 (finditer uw 4 rest)") auto
      then show ?thesis
        using True nb
        by (simp add: fix_line_def try_fix_byte_view_line_eq try_fix_word_view_line_eq m)
    next
      case False
      then show ?thesis
        using nb
        by (simp add: fix_line_def try_fix_byte_view_line_eq try_fix_word_view_line_eq m)
    qed
  qed
qed

lemma try_fix_byte_eval:
  assumes "ADDR_RE_match line = Some (addr, rest)" "finditer uw 2 rest = it" "16 \<le> length it"
    and "snd (it ! 15) = e" "take (9 + e) line = pre" "pad_width (drop (9 + e) line) = p"
    and "map (\<lambda>tok. hexnum (group1 rest tok)) (take 16 it) = bs" "map render_char bs = R"
  shows "try_fix_byte_view_line uw line = Inr (Some (pre @ replicate p 0x20 @ R))"
proof -
  have "\<not> length it < 16" using assms(3) by simp
  then have "try_fix_byte_view_line uw line =
      Inr (Some (take (9 + snd (it ! 15)) line
                 @ replicate (pad_width (drop (9 + snd (it ! 15)) line)) 0x20
                 @ map render_char (map (\<lambda>tok. hexnum (group1 rest tok)) (take 16 it))))"
    unfolding try_fix_byte_view_line_eq assms(1) option.case prod.case assms(2) by simp
  then show ?thesis
    unfolding assms(4) assms(5) assms(6) assms(7) assms(8) .
qed

lemma concat_lo_hi:
  "concat (map (\<lambda>tok. [f tok mod 256, f tok div (256::int)]) toks)
     = concat (map (\<lambda>w. [w mod 256, w div 256]) (map f toks))"
  by (induction toks) simp_all

lemma try_fix_word_eval:
  assumes "ADDR_RE_match line = Some (addr, rest)" "finditer uw 4 rest = it" "8 \<le> length it"
    and "snd (it ! 7) = e" "take (9 + e) line = pre" "pad_width (drop (9 + e) line) = p"
    and "map (\<lambda>tok. hexnum (group1 rest tok)) (take 8 it) = ws"
    and "map render_char (concat (map (\<lambda>w. [w mod 256, w div 256]) ws)) = R"
  shows "try_fix_word_view_line uw line = Inr (Some (pre @ replicate p 0x20 @ R))"
proof -
  have l: "\<not> length it < 8" using assms(3) by simp
  have eq: "concat (map (\<lambda>tok. [hexnum (group1 rest tok) mod 256,
                                   hexnum (group1 rest tok) div 256]) (take 8 it))
            = concat (map (\<lambda>w. [w mod 256, w div 256]) ws)"
    unfolding assms(7) [symmetric] by (rule concat_lo_hi)
  have "try_fix_word_view_line uw line =
      Inr (Some (take (9 + snd (it ! 7)) line
                 @ replicate (pad_width (drop (9 + snd (it ! 7)) line)) 0x20
                 @ map render_char
                     (concat (map (\<lambda>tok. [hexnum (group1 rest tok) mod 256,
                                   hexnum (group1 rest tok) div 256]) (take 8 it)))))"
    unfolding try_fix_word_view_line_eq assms(1) option.case prod.case assms(2)
    using l by (simp only: if_False)
  then show ?thesis
    unfolding eq assms(4) assms(5) assms(6) assms(8) .
qed

lemma try_fix_byte_None:
  assumes "ADDR_RE_match line = Some (addr, rest)" "finditer uw 2 rest = it" "length it < 16"
  shows "try_fix_byte_view_line uw line = Inr None"
  unfolding try_fix_byte_view_line_eq assms(1) option.case prod.case assms(2)
  using assms(3) by simp

text \<open>
  C3. A byte value below 0x20, or equal to 0x7F, is rendered as a period, whatever the
  code page gives it; every other byte value is rendered by decoding that single byte
  with \<open>cp866_to_utf8\<close>, which gives the code page's character.
\<close>

theorem render_byte_control_rule:
  "(b < 0x20 \<or> b = 0x7F \<longrightarrow> render_byte_cp866 b = Inr [0x2E])
   \<and> (0x20 \<le> b \<and> b \<noteq> 0x7F \<and> b < 256 \<longrightarrow>
        render_byte_cp866 b = cp866_to_utf8 [word_of_int b]
        \<and> render_byte_cp866 b = Inr [cp866_char (word_of_int b)])"
  by (auto simp: render_byte_cp866_def bytes_of_ints_def cp866_to_utf8_eq)

theorem render_byte_control_rule_witness:
  "render_byte_cp866 0x0A = Inr [0x2E] \<and> render_byte_cp866 0x7F = Inr [0x2E]
   \<and> render_byte_cp866 0x8A = cp866_to_utf8 [0x8A] \<and> render_byte_cp866 0x8A = Inr [0x41A]"
proof -
  have "cp866_char 0x8A = 0x41A"
    by (simp add: cp866_char_def cp866_decoding_table_def)
  then show ?thesis
    using render_byte_control_rule [of "0x0A"] render_byte_control_rule [of "0x7F"]
      render_byte_control_rule [of "0x8A"]
    by (simp add: cp866_to_utf8_eq)
qed

text \<open>
  C4. A line that has no address field, or has one but fewer than 16 standalone
  two-digit tokens and fewer than 8 standalone four-digit tokens after it, is matched
  by neither detector, and the classifier returns it unchanged, without an exception.
\<close>

theorem unclassified_line_unchanged:
  assumes "case ADDR_RE_match line of
             None \<Rightarrow> True
           | Some (addr, rest) \<Rightarrow>
               length (finditer uw 2 rest) < 16 \<and> length (finditer uw 4 rest) < 8"
  shows "try_fix_byte_view_line uw line = Inr None
         \<and> try_fix_word_view_line uw line = Inr None
         \<and> fix_line uw line = Inr line"
  using assms
  by (auto simp: fix_line_def try_fix_byte_view_line_eq try_fix_word_view_line_eq
      split: option.splits)

lemma help_line_no_address: "ADDR_RE_match (ustr_of ''Press F1 for help'') = None"
  by code_simp

lemma short_line_tokens:
  "ADDR_RE_match (ustr_of ''0000:0000  8A 10 00'') = Some (ustr_of ''0000:0000'', ustr_of ''  8A 10 00'')"
  "finditer uw 2 (ustr_of ''  8A 10 00'') = [(2, 4), (5, 7), (8, 10)]"
  "finditer uw 4 (ustr_of ''  8A 10 00'') = []"
  by code_simp+

theorem unclassified_line_unchanged_witness:
  "fix_line (\<lambda>c. False) (ustr_of ''Press F1 for help'') = Inr (ustr_of ''Press F1 for help'')
   \<and> fix_line (\<lambda>c. False) (ustr_of ''0000:0000  8A 10 00'') = Inr (ustr_of ''0000:0000  8A 10 00'')"
  using unclassified_line_unchanged [where line = "ustr_of ''Press F1 for help''" and uw = "\<lambda>c. False"]
    unclassified_line_unchanged [where line = "ustr_of ''0000:0000  8A 10 00''" and uw = "\<lambda>c. False"]
  by (simp add: help_line_no_address short_line_tokens)

subsection \<open>Scenario B\<close>

lemma word_view_bytes16_eval:
  assumes "finditer uw 4 rest = it" "map (\<lambda>tok. hexnum (group1 rest tok)) (take 8 it) = ws"
  shows "word_view_bytes16 rest (finditer uw 4 rest)
           = Inr (concat (map (\<lambda>w. [w mod 256, w div 256]) ws))"
proof -
  have "concat (map (\<lambda>tok. [hexnum (group1 rest tok) mod 256,
                                hexnum (group1 rest tok) div 256]) (take 8 it))
            = concat (map (\<lambda>w. [w mod 256, w div 256]) ws)"
    unfolding assms(2) [symmetric] by (rule concat_lo_hi)
  then show ?thesis
    unfolding word_view_bytes16_eq unfolding assms(1) by (rule arg_cong)
qed

lemma or_str_cons: "or_str (Some (x # xs @ ys)) k = Inr (x # xs @ ys)"
  by simp

lemma scenario_B_match:
  "ADDR_RE_match (ustr_of ''0000:0500  0000 2020 0000 0000 0000 0000 0000 0000  .... ....'')
     = Some (ustr_of ''0000:0500'', ustr_of ''  0000 2020 0000 0000 0000 0000 0000 0000  .... ....'')"
  by code_simp

lemma scenario_B_tokens:
  "finditer uw 2 (ustr_of ''  0000 2020 0000 0000 0000 0000 0000 0000  .... ....'') = []"
  "finditer uw 4 (ustr_of ''  0000 2020 0000 0000 0000 0000 0000 0000  .... ....'')
     = [(2, 6), (7, 11), (12, 16), (17, 21), (22, 26), (27, 31), (32, 36), (37, 41)]"
  by code_simp+

lemma scenario_B_values:
  "map (\<lambda>tok. hexnum (group1 (ustr_of ''  0000 2020 0000 0000 0000 0000 0000 0000  .... ....'') tok))
       (take 8 [(2, 6), (7, 11), (12, 16), (17, 21), (22, 26), (27, 31), (32, 36), (37, 41)])
     = [0, 0x2020, 0, 0, 0, 0, 0, 0]"
  by code_simp

lemma scenario_B_split:
  "take (9 + 41) (ustr_of ''0000:0500  0000 2020 0000 0000 0000 0000 0000 0000  .... ....'')
     = ustr_of ''0000:0500  0000 2020 0000 0000 0000 0000 0000 0000''"
  "pad_width (drop (9 + 41) (ustr_of ''0000:0500  0000 2020 0000 0000 0000 0000 0000 0000  .... ....'')) = 2"
  by code_simp+

lemma render_char_0: "render_char 0 = 0x2E"
  by (simp add: render_char_def)

lemma render_char_space: "render_char 0x20 = 0x20"
  by (simp add: render_char_def cp866_char_def cp866_decoding_table_def)

lemma scenario_B_rendered:
  "map render_char (concat (map (\<lambda>w. [w mod 256, w div 256]) [0, 0x2020, 0, 0, 0, 0, 0, 0]))
     = ustr_of ''..  ............''"
  by (simp add: render_char_0 render_char_space ustr_of_def)

lemma two_spaces: "replicate 2 0x20 = ustr_of ''  ''"
  by (simp add: ustr_of_def numeral_2_eq_2)

text \<open>
  C6. On the line of scenario B the byte view does not match; the word view does,
  collects the bytes 00 00 20 20 and twelve more 00, and the result is the text up to
  the eighth word, two spaces of padding, then two periods, two spaces and twelve
  periods.
\<close>

theorem scenario_B:
  "try_fix_byte_view_line uw
       (ustr_of ''0000:0500  0000 2020 0000 0000 0000 0000 0000 0000  .... ....'') = Inr None
   \<and> word_view_bytes16 (ustr_of ''  0000 2020 0000 0000 0000 0000 0000 0000  .... ....'')
        (finditer uw 4 (ustr_of ''  0000 2020 0000 0000 0000 0000 0000 0000  .... ....''))
       = Inr [0, 0, 0x20, 0x20, 0, 0, 0, 0, 0, 0, 0, 0, 0, 0, 0, 0]
   \<and> try_fix_word_view_line uw
       (ustr_of ''0000:0500  0000 2020 0000 0000 0000 0000 0000 0000  .... ....'')
       = Inr (Some (ustr_of ''0000:0500  0000 2020 0000 0000 0000 0000 0000 0000''
                    @ ustr_of ''  '' @ ustr_of ''..  ............''))
   \<and> fix_line uw
       (ustr_of ''0000:0500  0000 2020 0000 0000 0000 0000 0000 0000  .... ....'')
       = Inr (ustr_of ''0000:0500  0000 2020 0000 0000 0000 0000 0000 0000''
              @ ustr_of ''  '' @ ustr_of ''..  ............'')"
proof -
  have b: "try_fix_byte_view_line uw
       (ustr_of ''0000:0500  0000 2020 0000 0000 0000 0000 0000 0000  .... ....'') = Inr None"
    by (simp add: try_fix_byte_view_line_eq scenario_B_match scenario_B_tokens)
  have v: "word_view_bytes16 (ustr_of ''  0000 2020 0000 0000 0000 0000 0000 0000  .... ....'')
        (finditer uw 4 (ustr_of ''  0000 2020 0000 0000 0000 0000 0000 0000  .... ....''))
       = Inr [0, 0, 0x20, 0x20, 0, 0, 0, 0, 0, 0, 0, 0, 0, 0, 0, 0]"
    unfolding word_view_bytes16_eval [OF scenario_B_tokens(2) scenario_B_values]
    by simp
  have w: "try_fix_word_view_line uw
       (ustr_of ''0000:0500  0000 2020 0000 0000 0000 0000 0000 0000  .... ....'')
       = Inr (Some (ustr_of ''0000:0500  0000 2020 0000 0000 0000 0000 0000 0000''
                    @ replicate 2 0x20 @ ustr_of ''..  ............''))"
    by (rule try_fix_word_eval [OF scenario_B_match scenario_B_tokens(2) _ _ scenario_B_split
          scenario_B_values scenario_B_rendered]) simp_all
  have ne: "ustr_of ''0000:0500  0000 2020 0000 0000 0000 0000 0000 0000'' \<noteq> []"
    by (simp add: ustr_of_def)
  have f: "fix_line uw
       (ustr_of ''0000:0500  0000 2020 0000 0000 0000 0000 0000 0000  .... ....'')
       = Inr (ustr_of ''0000:0500  0000 2020 0000 0000 0000 0000 0000 0000''
              @ replicate 2 0x20 @ ustr_of ''..  ............'')"
    unfolding fix_line_def b w rbind_Inr or_str.simps(1)
    using ne by (simp only: or_str.simps(2) append_is_Nil_conv if_False simp_thms)
  show ?thesis
    using b v w f unfolding two_spaces by (intro conjI)
qed

end
